theory Spec2Isabelle
  imports Main "HOL-Library.Log_Nat"
begin

section \<open>The RESP codec and the guarded I/O of lib/icingadb/redisconnection.hpp\<close>

text \<open>
  The header holds four templates of \<^verbatim>\<open>RedisConnection\<close>: \<^verbatim>\<open>ReadLine\<close>,
  \<^verbatim>\<open>ReadRESP\<close>, \<^verbatim>\<open>WriteRESP\<close> and the guarded wrappers \<^verbatim>\<open>ReadOne\<close> and
  \<^verbatim>\<open>WriteOne\<close>, and the classes \<^verbatim>\<open>RedisError\<close>, \<^verbatim>\<open>RedisDisconnected\<close>,
  \<^verbatim>\<open>BadRedisType\<close> and \<^verbatim>\<open>BadRedisInt\<close>. Each becomes a HOL function of the same
  name. A byte is a \<^typ>\<open>char\<close> (8 bits), a byte string a \<^typ>\<open>string\<close>.

  A read stream is the list of bytes that will still arrive before the stream ends.
  Every read takes bytes from its front; a read that asks for more bytes than are left
  takes what is left and throws (\<^verbatim>\<open>boost::system::system_error\<close>, end of file).
  A function that reads returns the outcome together with the rest of the stream, so
  that what a failed call has consumed is visible as well.
\<close>

subsection \<open>Bytes\<close>

definition CR :: char where
  "CR = CHR 0x0D"

definition LF :: char where
  "LF = CHR 0x0A"

definition NUL :: char where
  "NUL = CHR 0x00"

definition CRLF :: string where
  "CRLF = [CR, LF]"

subsection \<open>Exceptions\<close>

text \<open>
  \<^verbatim>\<open>BadRedisType\<close> and \<^verbatim>\<open>BadRedisInt\<close> derive from \<^verbatim>\<open>RedisProtocolError\<close>. Each
  keeps a buffer \<^verbatim>\<open>m_What\<close> that ends with a zero byte, and \<^verbatim>\<open>what()\<close> returns
  a pointer to it: the message is the C string that starts there, the bytes before
  the first zero byte.
\<close>

datatype RedisProtocolError = BadRedisType string | BadRedisInt string

datatype exn = system_error | bad_alloc | RedisDisconnected | ProtocolError RedisProtocolError

definition new_BadRedisType :: "char \<Rightarrow> RedisProtocolError" where
  "new_BadRedisType type = BadRedisType [type, NUL]"

definition new_BadRedisInt :: "string \<Rightarrow> RedisProtocolError" where
  "new_BadRedisInt intStr = BadRedisInt (intStr @ [NUL])"

fun m_What :: "RedisProtocolError \<Rightarrow> string" where
  "m_What (BadRedisType buf) = buf"
| "m_What (BadRedisInt buf) = buf"

definition c_str :: "string \<Rightarrow> string" where
  "c_str p = takeWhile (\<lambda>c. c \<noteq> NUL) p"

definition what :: "RedisProtocolError \<Rightarrow> string" where
  "what e = c_str (m_What e)"

subsection \<open>Values\<close>

text \<open>
  Modelled from the spec: \<^verbatim>\<open>Value\<close>, \<^verbatim>\<open>String\<close> and \<^verbatim>\<open>Array\<close> are declared in
  base/value.hpp, base/string.hpp and base/array.hpp, which are not among the sources.
  The spec's reply is one of null, string, integer (held as a double), array of
  replies, error object carrying a message. A \<^verbatim>\<open>String\<close> is its bytes,
  \<^verbatim>\<open>GetLength\<close> their number, \<^verbatim>\<open>Array::Add\<close> appends at the end. The number of
  \<open>ValueNumber\<close> is the value of the double, which is an integer here.
\<close>

record RedisError =
  m_Message :: string

definition new_RedisError :: "string \<Rightarrow> RedisError" where
  "new_RedisError message = \<lparr>m_Message = message\<rparr>"

definition GetMessage :: "RedisError \<Rightarrow> string" where
  "GetMessage e = m_Message e"

datatype Value =
    ValueEmpty
  | ValueNumber int
  | ValueString string
  | ValueRedisError RedisError
  | ValueArray "Value list"

type_synonym Query = "string list"

subsection \<open>Library functions the codec calls\<close>

text \<open>
  Modelled from the spec: \<^verbatim>\<open>boost::lexical_cast<intmax_t>\<close> is the spec's "parse
  signed integer". In the classic locale it accepts an optional sign \<open>+\<close> or \<open>-\<close>
  followed by one or more decimal digits (leading zeros allowed) whose value lies in
  the range of a 64-bit signed integer, and throws on everything else. \<open>None\<close> is
  the throw.
\<close>

definition is_digit :: "char \<Rightarrow> bool" where
  "is_digit c = (48 \<le> (of_char c :: nat) \<and> (of_char c :: nat) \<le> 57)"

definition digit_value :: "char \<Rightarrow> nat" where
  "digit_value c = of_char c - 48"

definition lcast_ret_unsigned :: "string \<Rightarrow> nat option" where
  "lcast_ret_unsigned s =
     (if s \<noteq> [] \<and> list_all is_digit s
      then Some (foldl (\<lambda>v c. 10 * v + digit_value c) 0 s)
      else None)"

definition lexical_cast :: "string \<Rightarrow> int option" where
  "lexical_cast s =
     (case s of
        [] \<Rightarrow> None
      | c # rest \<Rightarrow>
          (let has_minus = (c = CHR ''-'');
               start = (if has_minus \<or> c = CHR ''+'' then rest else s)
           in case lcast_ret_unsigned start of
                None \<Rightarrow> None
              | Some out_tmp \<Rightarrow>
                  if has_minus
                  then (if out_tmp \<le> 2 ^ 63 then Some (- int out_tmp) else None)
                  else (if out_tmp \<le> 2 ^ 63 - 1 then Some (int out_tmp) else None)))"

text \<open>
  The conversion \<^verbatim>\<open>(double)i\<close> of a 64-bit integer: exact below \<open>2 ^ 53\<close>, and
  above it the nearest number with a significand of 53 bits, a tie going to the even
  significand.
\<close>

definition double_of_intmax :: "int \<Rightarrow> int" where
  "double_of_intmax i =
     (let a = nat \<bar>i\<bar> in
      if a < 2 ^ 53 then i
      else
        (let e = floorlog 2 a - 53;
             q = a div 2 ^ e;
             r = a mod 2 ^ e;
             h = 2 ^ (e - 1);
             q' = (if h < r \<or> (r = h \<and> odd q) then q + 1 else q)
         in sgn i * int (q' * 2 ^ e)))"

text \<open>
  \<^verbatim>\<open>std::ostream << size_t\<close> in the classic locale: the decimal digits of the
  number, most significant first, no leading zero.
\<close>

definition digit_char :: "nat \<Rightarrow> char" where
  "digit_char d = char_of (48 + d)"

fun show_size_t :: "nat \<Rightarrow> string" where
  "show_size_t n =
     (if n < 10 then [digit_char n]
      else show_size_t (n div 10) @ [digit_char (n mod 10)])"

declare show_size_t.simps [simp del]

subsection \<open>Memory\<close>

text \<open>
  Two allocations of \<^verbatim>\<open>ReadRESP\<close> take their size from the wire, before the bytes
  they are meant for have been read: the buffer of a bulk string,
  \<^verbatim>\<open>buf.insert(buf.end(), i, 0)\<close>, and the storage of an array,
  \<^verbatim>\<open>arr->Reserve(i)\<close> (modelled from the spec: \<^verbatim>\<open>Array::Reserve\<close> is declared in
  base/array.hpp, which is not among the sources; it reserves the storage for that
  many values). Either throws (\<^verbatim>\<open>std::bad_alloc\<close> or
  \<^verbatim>\<open>std::length_error\<close>, here \<open>bad_alloc\<close>) when the memory cannot be had.
  \<open>max_chars\<close> is the largest number of bytes the first can obtain, \<open>max_values\<close>
  the largest number of values the second can reserve. Allocations for bytes that
  have already been read (a line, a string, an element added to a reserved array) are
  taken to succeed.
\<close>

record memory =
  max_chars :: nat
  max_values :: nat

text \<open>A small memory for the examples: room for 16 bytes and for 4 values.\<close>

definition small_memory :: memory where
  "small_memory = \<lparr>max_chars = 16, max_values = 4\<rparr>"

subsection \<open>Reading\<close>

type_synonym AsyncReadStream = "char list"

text \<open>
  \<^verbatim>\<open>asio::async_read(stream, asio::mutable_buffer(p, n), yc)\<close> fills all \<open>n\<close> bytes or
  throws.
\<close>

definition async_read :: "nat \<Rightarrow> AsyncReadStream \<Rightarrow> (exn + string) \<times> AsyncReadStream" where
  "async_read n stream =
     (if n \<le> length stream then (Inr (take n stream), drop n stream)
      else (Inl system_error, []))"

text \<open>
  \<^verbatim>\<open>ReadLine\<close>: the loop reads one byte at a time into \<^verbatim>\<open>next\<close> (the patterns
  \<open>[]\<close> and \<open>next # stream\<close> are the one-byte read). At a \<open>CR\<close> it reads one
  more byte, which it does not look at, and returns the line. The size hint only
  reserves memory.
\<close>

fun ReadLine_loop :: "string \<Rightarrow> AsyncReadStream \<Rightarrow> (exn + string) \<times> AsyncReadStream" where
  "ReadLine_loop line [] = (Inl system_error, [])"
| "ReadLine_loop line (next # stream) =
     (if next = CR then
        (case stream of
           [] \<Rightarrow> (Inl system_error, [])
         | _ # stream' \<Rightarrow> (Inr line, stream'))
      else ReadLine_loop (line @ [next]) stream)"

definition ReadLine :: "AsyncReadStream \<Rightarrow> (exn + string) \<times> AsyncReadStream" where
  "ReadLine stream = ReadLine_loop [] stream"

text \<open>
  \<^verbatim>\<open>ReadRESP\<close>, with the loop \<^verbatim>\<open>for (; i; --i) arr->Add(ReadRESP(stream, yc))\<close> of
  its array case as \<open>ReadRESP_elems\<close>: the counter, the array built so far, the
  stream. Both take the memory of the process as their first argument.
\<close>

function ReadRESP :: "memory \<Rightarrow> AsyncReadStream \<Rightarrow> (exn + Value) \<times> AsyncReadStream"
  and ReadRESP_elems ::
    "memory \<Rightarrow> nat \<Rightarrow> Value list \<Rightarrow> AsyncReadStream
       \<Rightarrow> (exn + Value list) \<times> AsyncReadStream"
where
  "ReadRESP mem [] = (Inl system_error, [])"
| "ReadRESP mem (type # stream) =
     (if type = CHR ''+'' then
        (case ReadLine stream of
           (Inl e, stream) \<Rightarrow> (Inl e, stream)
         | (Inr buf, stream) \<Rightarrow> (Inr (ValueString buf), stream))
      else if type = CHR ''-'' then
        (case ReadLine stream of
           (Inl e, stream) \<Rightarrow> (Inl e, stream)
         | (Inr buf, stream) \<Rightarrow> (Inr (ValueRedisError (new_RedisError buf)), stream))
      else if type = CHR '':'' then
        (case ReadLine stream of
           (Inl e, stream) \<Rightarrow> (Inl e, stream)
         | (Inr buf, stream) \<Rightarrow>
             (case lexical_cast buf of
                None \<Rightarrow> (Inl (ProtocolError (new_BadRedisInt buf)), stream)
              | Some i \<Rightarrow> (Inr (ValueNumber (double_of_intmax i)), stream)))
      else if type = CHR ''$'' then
        (case ReadLine stream of
           (Inl e, stream) \<Rightarrow> (Inl e, stream)
         | (Inr buf, stream) \<Rightarrow>
             (case lexical_cast buf of
                None \<Rightarrow> (Inl (ProtocolError (new_BadRedisInt buf)), stream)
              | Some i \<Rightarrow>
                  if i < 0 then (Inr ValueEmpty, stream)
                  else if max_chars mem < nat i then (Inl bad_alloc, stream)
                  else
                    (case async_read (nat i) stream of
                       (Inl e, stream) \<Rightarrow> (Inl e, stream)
                     | (Inr buf, stream) \<Rightarrow>
                         (case async_read 2 stream of
                            (Inl e, stream) \<Rightarrow> (Inl e, stream)
                          | (Inr crlf, stream) \<Rightarrow> (Inr (ValueString buf), stream)))))
      else if type = CHR ''*'' then
        (case ReadLine stream of
           (Inl e, stream) \<Rightarrow> (Inl e, stream)
         | (Inr buf, stream) \<Rightarrow>
             (case lexical_cast buf of
                None \<Rightarrow> (Inl (ProtocolError (new_BadRedisInt buf)), stream)
              | Some i \<Rightarrow>
                  if max_values mem < nat (if i < 0 then 0 else i)
                  then (Inl bad_alloc, stream)
                  else
                    (case ReadRESP_elems mem (nat (if i < 0 then 0 else i)) [] stream of
                       (Inl e, stream) \<Rightarrow> (Inl e, stream)
                     | (Inr arr, stream) \<Rightarrow> (Inr (ValueArray arr), stream))))
      else (Inl (ProtocolError (new_BadRedisType type)), stream))"
| "ReadRESP_elems mem 0 arr stream = (Inr arr, stream)"
| "ReadRESP_elems mem (Suc i) arr stream =
     (case ReadRESP mem stream of
        (Inl e, stream) \<Rightarrow> (Inl e, stream)
      | (Inr v, stream) \<Rightarrow> ReadRESP_elems mem i (arr @ [v]) stream)"
  by pat_completeness auto

text \<open>
  The loop of \<open>ReadRESP_elems\<close> goes on with the stream that the element's
  \<open>ReadRESP\<close> has left, so termination needs, beforehand and on the domain of the
  recursion, that no call returns a longer stream than it was given. \<open>ReadRESP\<close>
  returns one that is shorter by the type byte at least.
\<close>

lemma ReadLine_loop_length: "length (snd (ReadLine_loop line s)) \<le> length s"
  by (induction s arbitrary: line) (auto split: list.splits simp: le_SucI)

lemma ReadLine_length: "ReadLine s = (r, s') \<Longrightarrow> length s' \<le> length s"
  using ReadLine_loop_length [of "[]" s] by (simp add: ReadLine_def)

lemma async_read_length: "async_read n s = (r, s') \<Longrightarrow> length s' \<le> length s"
  by (auto simp: async_read_def split: if_splits)

lemma type_byte_cases:
  obtains (plus) "type = CHR ''+''" | (minus) "type = CHR ''-''" | (colon) "type = CHR '':''"
    | (dollar) "type = CHR ''$''" | (star) "type = CHR ''*''"
    | (other) "type \<noteq> CHR ''+''" "type \<noteq> CHR ''-''" "type \<noteq> CHR '':''"
        "type \<noteq> CHR ''$''" "type \<noteq> CHR ''*''"
  by blast

lemma ReadRESP_partial_length:
  "ReadRESP_ReadRESP_elems_dom (Inl (mem, s)) \<Longrightarrow>
     length (snd (ReadRESP mem s)) \<le> length s - 1"
  "ReadRESP_ReadRESP_elems_dom (Inr (mem, n, arr, s)) \<Longrightarrow>
     length (snd (ReadRESP_elems mem n arr s)) \<le> length s"
proof (induct rule: ReadRESP_ReadRESP_elems.pinduct)
  case (1 mem)
  then show ?case by (simp add: ReadRESP.psimps)
next
  case (2 mem type stream)
  note eq = ReadRESP.psimps(2) [OF 2(1)]
  obtain r s1 where rl: "ReadLine stream = (r, s1)" by (cases "ReadLine stream")
  have s1: "length s1 \<le> length stream" using rl by (rule ReadLine_length)
  show ?case
  proof (cases type rule: type_byte_cases)
    case plus
    then show ?thesis unfolding eq using s1 by (simp add: rl split: sum.splits)
  next
    case minus
    then show ?thesis unfolding eq using s1 by (simp add: rl split: sum.splits)
  next
    case colon
    then show ?thesis unfolding eq using s1 by (simp add: rl split: sum.splits option.splits)
  next
    case dollar
    show ?thesis
    proof (cases r)
      case (Inl e)
      then show ?thesis unfolding eq using s1 dollar by (simp add: rl)
    next
      case (Inr buf)
      show ?thesis
      proof (cases "lexical_cast buf")
        case None
        then show ?thesis unfolding eq using s1 dollar Inr by (simp add: rl)
      next
        case (Some i)
        obtain r2 s2 where a2: "async_read (nat i) s1 = (r2, s2)"
          by (cases "async_read (nat i) s1")
        obtain r3 s3 where a3: "async_read 2 s2 = (r3, s3)"
          by (cases "async_read 2 s2")
        have "length s2 \<le> length s1" "length s3 \<le> length s2"
          using a2 a3 by (auto dest: async_read_length)
        then show ?thesis unfolding eq using s1 dollar Inr Some a2 a3
          by (simp add: rl split: sum.splits)
      qed
    qed
  next
    case star
    show ?thesis
    proof (cases r)
      case (Inl e)
      then show ?thesis unfolding eq using s1 star by (simp add: rl)
    next
      case (Inr buf)
      show ?thesis
      proof (cases "lexical_cast buf")
        case None
        then show ?thesis unfolding eq using s1 star Inr by (simp add: rl)
      next
        case (Some i)
        have other: "type \<noteq> CHR ''+''" "type \<noteq> CHR ''-''" "type \<noteq> CHR '':''"
          "type \<noteq> CHR ''$''" using star by simp_all
        let ?n = "nat (if i < 0 then 0 else i)"
        show ?thesis
        proof (cases "max_values mem < ?n")
          case True
          then show ?thesis unfolding eq using s1 star Inr Some by (simp add: rl)
        next
          case False
          have ih: "length (snd (ReadRESP_elems mem ?n [] s1)) \<le> length s1"
            using 2(2) [OF other star rl [symmetric] Inr Some False] .
          obtain r2 s2 where e2: "ReadRESP_elems mem ?n [] s1 = (r2, s2)"
            by (cases "ReadRESP_elems mem ?n [] s1")
          then show ?thesis unfolding eq using s1 star Inr Some False ih
            by (simp add: rl split: sum.splits)
        qed
      qed
    qed
  next
    case other
    then show ?thesis unfolding eq by simp
  qed
next
  case (3 mem arr stream)
  then show ?case by (simp add: ReadRESP_elems.psimps)
next
  case (4 mem i arr stream)
  show ?case
    using 4
    by (auto simp: ReadRESP_elems.psimps split: prod.splits sum.splits)
qed

definition call_measure ::
  "memory \<times> AsyncReadStream + memory \<times> nat \<times> Value list \<times> AsyncReadStream
     \<Rightarrow> nat \<times> nat" where
  "call_measure x =
     (case x of Inl (mem, s) \<Rightarrow> (length s, 0) | Inr (mem, n, arr, s) \<Rightarrow> (length s, Suc n))"

lemma ReadRESP_total: "All ReadRESP_ReadRESP_elems_dom"
proof (relation "inv_image (less_than <*lex*> less_than) call_measure", goal_cases)
  case 1
  show ?case by (intro wf_inv_image wf_lex_prod wf_less_than)
next
  case (2 mem type stream x y b x2)
  have "length y \<le> length stream"
    using ReadLine_length [of stream x y] 2 by simp
  then show ?case by (simp add: call_measure_def)
next
  case (3 mem i arr stream)
  show ?case by (simp add: call_measure_def)
next
  case (4 mem i arr stream x y b)
  have "snd (ReadRESP mem stream) = y" using 4(1) [symmetric] by simp
  then have "length y \<le> length stream"
    using ReadRESP_partial_length(1) [OF 4(3)] by simp
  then show ?case by (auto simp: call_measure_def le_less)
qed

termination ReadRESP
  by (rule ReadRESP_total)

declare ReadRESP.simps(2) [simp del]

text \<open>
  What the claim about arrays calls values decoded recursively and in order, written
  from the claim's words and apart from the loop: \<open>decoded_in_order mem stream vs rest\<close>
  holds when decoding one value after the other from \<open>stream\<close> yields the values
  \<open>vs\<close>, each decode starting where the one before it stopped, and leaves \<open>rest\<close>.
\<close>

fun decoded_in_order ::
  "memory \<Rightarrow> AsyncReadStream \<Rightarrow> Value list \<Rightarrow> AsyncReadStream \<Rightarrow> bool" where
  "decoded_in_order mem stream [] rest = (rest = stream)"
| "decoded_in_order mem stream (v # vs) rest =
     (case ReadRESP mem stream of
        (Inl e, stream') \<Rightarrow> False
      | (Inr v', stream') \<Rightarrow> v' = v \<and> decoded_in_order mem stream' vs rest)"

subsection \<open>Writing\<close>

text \<open>
  The connection's stream, a \<^verbatim>\<open>boost::asio::buffered_stream\<close> over a socket:
  \<open>incoming\<close> are the bytes the server still sends before the stream ends,
  \<open>outgoing\<close> the bytes written to it so far, in order. A write or a flush throws
  when the transport no longer takes bytes (\<open>write_fails\<close>), and then writes nothing.
\<close>

record buffered_stream =
  incoming :: AsyncReadStream
  outgoing :: "char list"
  write_fails :: bool

definition async_write :: "string \<Rightarrow> buffered_stream \<Rightarrow> (exn + unit) \<times> buffered_stream" where
  "async_write writeBuffer stream =
     (if write_fails stream then (Inl system_error, stream)
      else (Inr (), stream\<lparr>outgoing := outgoing stream @ writeBuffer\<rparr>))"

definition async_flush :: "buffered_stream \<Rightarrow> (exn + unit) \<times> buffered_stream" where
  "async_flush stream =
     (if write_fails stream then (Inl system_error, stream) else (Inr (), stream))"

text \<open>
  \<^verbatim>\<open>WriteRESP\<close>: \<open>WriteRESP_msg\<close> is what the function puts into \<^verbatim>\<open>writeBuffer\<close>
  through \<^verbatim>\<open>msg\<close>, the header and then one pass of the loop for each argument;
  \<open>WriteRESP\<close> writes the buffer to the stream.
\<close>

definition WriteRESP_msg :: "Query \<Rightarrow> string" where
  "WriteRESP_msg query =
     foldl (\<lambda>msg arg. msg @ ''$'' @ show_size_t (length arg) @ CRLF @ arg @ CRLF)
       (''*'' @ show_size_t (length query) @ CRLF) query"

definition WriteRESP :: "Query \<Rightarrow> buffered_stream \<Rightarrow> (exn + unit) \<times> buffered_stream" where
  "WriteRESP query stream = async_write (WriteRESP_msg query) stream"

subsection \<open>The guarded wrappers\<close>

text \<open>
  What \<^verbatim>\<open>ReadOne\<close> and \<^verbatim>\<open>WriteOne\<close> touch of a \<^verbatim>\<open>RedisConnection\<close>: the stream
  pointer they are given by reference (\<^verbatim>\<open>m_TcpConn\<close> or \<^verbatim>\<open>m_UnixConn\<close>; \<open>None\<close> is
  the null pointer), the atomic flags, and the number of \<^verbatim>\<open>Connect\<close> coroutines
  spawned so far. \<open>m_Queues\<close> stands for the queues of the connection, whatever they
  hold. The rethrown \<^verbatim>\<open>forced_unwind\<close> is the coroutine library's and is not thrown
  by the stream operations here.
\<close>

record 'q RedisConnection =
  m_Conn :: "buffered_stream option"
  m_Connecting :: bool
  m_Connected :: bool
  m_Queues :: 'q
  spawned_Connect :: nat

definition m_Connecting_exchange ::
  "bool \<Rightarrow> 'q RedisConnection \<Rightarrow> bool \<times> 'q RedisConnection" where
  "m_Connecting_exchange desired this = (m_Connecting this, this\<lparr>m_Connecting := desired\<rparr>)"

text \<open>The body of \<^verbatim>\<open>catch (...)\<close>, the same in both wrappers, before the rethrow.\<close>

definition catch_all :: "'q RedisConnection \<Rightarrow> 'q RedisConnection" where
  "catch_all this =
     (case m_Connecting_exchange False this of
        (was_connecting, this) \<Rightarrow>
          if was_connecting then
            (let this = this\<lparr>m_Connected := False\<rparr>;
                 this = this\<lparr>m_Conn := None\<rparr>
             in case m_Connecting_exchange True this of
                  (was_connecting, this) \<Rightarrow>
                    if \<not> was_connecting
                    then this\<lparr>spawned_Connect := Suc (spawned_Connect this)\<rparr>
                    else this)
          else this)"

definition ReadOne ::
  "memory \<Rightarrow> 'q RedisConnection \<Rightarrow> (exn + Value) \<times> 'q RedisConnection" where
  "ReadOne mem this =
     (case m_Conn this of
        None \<Rightarrow> (Inl RedisDisconnected, this)
      | Some strm \<Rightarrow>
          (case ReadRESP mem (incoming strm) of
             (Inr reply, rest) \<Rightarrow>
               (Inr reply, this\<lparr>m_Conn := Some (strm\<lparr>incoming := rest\<rparr>)\<rparr>)
           | (Inl e, rest) \<Rightarrow>
               (Inl e, catch_all (this\<lparr>m_Conn := Some (strm\<lparr>incoming := rest\<rparr>)\<rparr>))))"

definition WriteOne :: "Query \<Rightarrow> 'q RedisConnection \<Rightarrow> (exn + unit) \<times> 'q RedisConnection" where
  "WriteOne query this =
     (case m_Conn this of
        None \<Rightarrow> (Inl RedisDisconnected, this)
      | Some strm \<Rightarrow>
          (case WriteRESP query strm of
             (Inl e, strm) \<Rightarrow> (Inl e, catch_all (this\<lparr>m_Conn := Some strm\<rparr>))
           | (Inr _, strm) \<Rightarrow>
               (case async_flush strm of
                  (Inl e, strm) \<Rightarrow> (Inl e, catch_all (this\<lparr>m_Conn := Some strm\<rparr>))
                | (Inr _, strm) \<Rightarrow> (Inr (), this\<lparr>m_Conn := Some strm\<rparr>))))"

section \<open>Properties\<close>

subsection \<open>Lines\<close>

lemma ReadLine_loop_line:
  "CR \<notin> set l \<Longrightarrow> ReadLine_loop acc (l @ CR # c # rest) = (Inr (acc @ l), rest)"
  by (induction l arbitrary: acc) auto

lemma ReadLine_line: "CR \<notin> set l \<Longrightarrow> ReadLine (l @ CR # c # rest) = (Inr l, rest)"
  by (simp add: ReadLine_def ReadLine_loop_line)

lemma ReadLine_loop_Inr:
  "ReadLine_loop acc s = (Inr line, rest) \<Longrightarrow>
     \<exists>l c. s = l @ CR # c # rest \<and> CR \<notin> set l \<and> line = acc @ l"
proof (induction s arbitrary: acc)
  case Nil
  then show ?case by simp
next
  case (Cons a s)
  show ?case
  proof (cases "a = CR")
    case True
    with Cons.prems obtain c where "s = c # rest" "line = acc"
      by (auto split: list.splits)
    then have "a # s = [] @ CR # c # rest \<and> CR \<notin> set [] \<and> line = acc @ []"
      using True by simp
    then show ?thesis by blast
  next
    case False
    with Cons.prems have "ReadLine_loop (acc @ [a]) s = (Inr line, rest)" by simp
    from Cons.IH [OF this] obtain l c where
      "s = l @ CR # c # rest" "CR \<notin> set l" "line = (acc @ [a]) @ l" by blast
    then have "a # s = (a # l) @ CR # c # rest \<and> CR \<notin> set (a # l) \<and> line = acc @ (a # l)"
      using False by simp
    then show ?thesis by blast
  qed
qed

lemma ReadLine_loop_Inl:
  "ReadLine_loop acc s = (Inl e, rest) \<Longrightarrow> e = system_error \<and> rest = []"
proof (induction s arbitrary: acc)
  case Nil
  then show ?case by simp
next
  case (Cons a s)
  show ?case
  proof (cases "a = CR")
    case True
    then show ?thesis using Cons.prems by (cases s) auto
  next
    case False
    then have "ReadLine_loop (acc @ [a]) s = (Inl e, rest)" using Cons.prems by simp
    then show ?thesis by (rule Cons.IH)
  qed
qed

subsection \<open>Header numbers\<close>

lemma not_digit_CR: "\<not> is_digit CR"
  by (simp add: is_digit_def CR_def)

lemma lcast_ret_unsigned_digits:
  "lcast_ret_unsigned s = Some u \<Longrightarrow> list_all is_digit s"
  by (simp add: lcast_ret_unsigned_def split: if_splits)

lemma digits_no_CR: "list_all is_digit s \<Longrightarrow> CR \<notin> set s"
  using not_digit_CR by (auto simp: list_all_iff)

lemma lexical_cast_no_CR:
  assumes "lexical_cast s = Some i"
  shows "CR \<notin> set s"
proof (cases s)
  case Nil
  then show ?thesis by simp
next
  case (Cons c rest)
  define start where "start = (if c = CHR ''-'' \<or> c = CHR ''+'' then rest else s)"
  obtain u where u: "lcast_ret_unsigned start = Some u"
    using assms Cons by (auto simp: lexical_cast_def Let_def start_def split: option.splits)
  then have d: "CR \<notin> set start"
    by (intro digits_no_CR lcast_ret_unsigned_digits)
  show ?thesis
  proof (cases "c = CHR ''-'' \<or> c = CHR ''+''")
    case True
    then have "c \<noteq> CR" by (auto simp: CR_def)
    then show ?thesis using d True Cons by (simp add: start_def)
  next
    case False
    then show ?thesis using d by (simp add: start_def)
  qed
qed

subsection \<open>The cases of \<open>ReadRESP\<close>, one type byte at a time\<close>

lemma ReadRESP_plus:
  "ReadRESP mem (CHR ''+'' # stream) =
     (case ReadLine stream of
        (Inl e, stream) \<Rightarrow> (Inl e, stream)
      | (Inr buf, stream) \<Rightarrow> (Inr (ValueString buf), stream))"
  by (simp add: ReadRESP.simps(2))

lemma ReadRESP_minus:
  "ReadRESP mem (CHR ''-'' # stream) =
     (case ReadLine stream of
        (Inl e, stream) \<Rightarrow> (Inl e, stream)
      | (Inr buf, stream) \<Rightarrow> (Inr (ValueRedisError (new_RedisError buf)), stream))"
  by (simp add: ReadRESP.simps(2))

lemma ReadRESP_colon:
  "ReadRESP mem (CHR '':'' # stream) =
     (case ReadLine stream of
        (Inl e, stream) \<Rightarrow> (Inl e, stream)
      | (Inr buf, stream) \<Rightarrow>
          (case lexical_cast buf of
             None \<Rightarrow> (Inl (ProtocolError (new_BadRedisInt buf)), stream)
           | Some i \<Rightarrow> (Inr (ValueNumber (double_of_intmax i)), stream)))"
  by (simp add: ReadRESP.simps(2))

lemma ReadRESP_dollar:
  "ReadRESP mem (CHR ''$'' # stream) =
     (case ReadLine stream of
        (Inl e, stream) \<Rightarrow> (Inl e, stream)
      | (Inr buf, stream) \<Rightarrow>
          (case lexical_cast buf of
             None \<Rightarrow> (Inl (ProtocolError (new_BadRedisInt buf)), stream)
           | Some i \<Rightarrow>
               if i < 0 then (Inr ValueEmpty, stream)
               else if max_chars mem < nat i then (Inl bad_alloc, stream)
               else
                 (case async_read (nat i) stream of
                    (Inl e, stream) \<Rightarrow> (Inl e, stream)
                  | (Inr buf, stream) \<Rightarrow>
                      (case async_read 2 stream of
                         (Inl e, stream) \<Rightarrow> (Inl e, stream)
                       | (Inr crlf, stream) \<Rightarrow> (Inr (ValueString buf), stream)))))"
  by (simp add: ReadRESP.simps(2))

lemma ReadRESP_star:
  "ReadRESP mem (CHR ''*'' # stream) =
     (case ReadLine stream of
        (Inl e, stream) \<Rightarrow> (Inl e, stream)
      | (Inr buf, stream) \<Rightarrow>
          (case lexical_cast buf of
             None \<Rightarrow> (Inl (ProtocolError (new_BadRedisInt buf)), stream)
           | Some i \<Rightarrow>
               if max_values mem < nat (if i < 0 then 0 else i)
               then (Inl bad_alloc, stream)
               else
                 (case ReadRESP_elems mem (nat (if i < 0 then 0 else i)) [] stream of
                    (Inl e, stream) \<Rightarrow> (Inl e, stream)
                  | (Inr arr, stream) \<Rightarrow> (Inr (ValueArray arr), stream))))"
  by (simp add: ReadRESP.simps(2))

lemma ReadRESP_other:
  "type \<noteq> CHR ''+'' \<Longrightarrow> type \<noteq> CHR ''-'' \<Longrightarrow> type \<noteq> CHR '':'' \<Longrightarrow>
   type \<noteq> CHR ''$'' \<Longrightarrow> type \<noteq> CHR ''*'' \<Longrightarrow>
   ReadRESP mem (type # stream) = (Inl (ProtocolError (new_BadRedisType type)), stream)"
  by (simp add: ReadRESP.simps(2))

subsection \<open>Error replies\<close>

text \<open>
  Claim C6. A reply that begins with \<open>-\<close> is not thrown: \<open>ReadRESP\<close> returns an
  error value that carries exactly the bytes of the line after the \<open>-\<close>, and
  \<open>GetMessage\<close> yields them. The line is what stands before the first \<open>CR\<close>; one
  more byte is consumed after it. The only input that begins with \<open>-\<close> and makes
  \<open>ReadRESP\<close> throw is one where the stream ends before the line does, and then the
  exception is the stream's, not a protocol error.
\<close>

theorem ReadRESP_error_reply:
  "(CR \<notin> set message \<longrightarrow>
      ReadRESP mem (CHR ''-'' # message @ CR # c # rest)
        = (Inr (ValueRedisError (new_RedisError message)), rest))
   \<and> GetMessage (new_RedisError message) = message
   \<and> ((\<exists>message c rest. stream = message @ CR # c # rest \<and> CR \<notin> set message)
        \<or> ReadRESP mem (CHR ''-'' # stream) = (Inl system_error, []))"
proof -
  have a: "CR \<notin> set message \<longrightarrow>
      ReadRESP mem (CHR ''-'' # message @ CR # c # rest)
        = (Inr (ValueRedisError (new_RedisError message)), rest)"
    by (simp add: ReadRESP_minus ReadLine_line)
  have b: "GetMessage (new_RedisError message) = message"
    by (simp add: GetMessage_def new_RedisError_def)
  have c: "(\<exists>message c rest. stream = message @ CR # c # rest \<and> CR \<notin> set message)
        \<or> ReadRESP mem (CHR ''-'' # stream) = (Inl system_error, [])"
  proof (cases "ReadLine stream")
    case (Pair r s')
    show ?thesis
    proof (cases r)
      case (Inl e)
      then have "e = system_error \<and> s' = []"
        using Pair ReadLine_loop_Inl [of "[]" stream e s'] by (simp add: ReadLine_def)
      then show ?thesis using Pair Inl by (simp add: ReadRESP_minus)
    next
      case (Inr line)
      then obtain l c where "stream = l @ CR # c # s'" "CR \<notin> set l"
        using Pair ReadLine_loop_Inr [of "[]" stream line s'] by (auto simp: ReadLine_def)
      then show ?thesis by blast
    qed
  qed
  from a b c show ?thesis by blast
qed

theorem ReadRESP_error_reply_witness:
  "ReadRESP small_memory (''-ERR wrong type'' @ CRLF @ ''+OK'')
     = (Inr (ValueRedisError \<lparr>m_Message = ''ERR wrong type''\<rparr>), ''+OK'')
   \<and> GetMessage \<lparr>m_Message = ''ERR wrong type''\<rparr> = ''ERR wrong type''"
proof -
  have h: "CR \<notin> set ''ERR wrong type''" by (simp add: CR_def)
  show ?thesis
    using h ReadRESP_error_reply
      [where mem = small_memory and message = "''ERR wrong type''" and c = LF and rest = "''+OK''"]
    by (simp add: CRLF_def new_RedisError_def)
qed

subsection \<open>Unknown type bytes\<close>

text \<open>
  Claim C7, as amended. For every input whose first byte is none of \<open>+\<close>, \<open>-\<close>,
  \<open>:\<close>, \<open>$\<close>, \<open>*\<close>, \<open>ReadRESP\<close> throws \<^verbatim>\<open>BadRedisType\<close> after that one byte,
  and the exception's buffer holds exactly the offending byte and the terminating
  zero. Its \<^verbatim>\<open>what()\<close> message, a C string, is that single byte unless the byte is
  the zero byte, where the message is empty.
\<close>

theorem ReadRESP_bad_type:
  assumes "type \<notin> set ''+-:$*''"
  shows "ReadRESP mem (type # stream) = (Inl (ProtocolError (new_BadRedisType type)), stream)
       \<and> m_What (new_BadRedisType type) = [type, NUL]
       \<and> what (new_BadRedisType type) = (if type = NUL then [] else [type])"
proof -
  have "ReadRESP mem (type # stream) = (Inl (ProtocolError (new_BadRedisType type)), stream)"
    using assms by (intro ReadRESP_other) auto
  moreover have "m_What (new_BadRedisType type) = [type, NUL]"
    by (simp add: new_BadRedisType_def)
  moreover have "what (new_BadRedisType type) = (if type = NUL then [] else [type])"
    by (simp add: what_def c_str_def new_BadRedisType_def)
  ultimately show ?thesis by simp
qed

theorem ReadRESP_bad_type_witness:
  "CHR ''?'' \<notin> set ''+-:$*''
   \<and> ReadRESP small_memory (CHR ''?'' # ''abc'')
       = (Inl (ProtocolError (BadRedisType [CHR ''?'', NUL])), ''abc'')
   \<and> what (BadRedisType [CHR ''?'', NUL]) = ''?''"
proof -
  have h: "CHR ''?'' \<notin> set ''+-:$*''" by simp
  show ?thesis
    using h ReadRESP_bad_type [OF h, where mem = small_memory and stream = "''abc''"]
    by (simp add: new_BadRedisType_def NUL_def)
qed

text \<open>
  The claim as stated fails where the offending byte is the zero byte: the exception is
  thrown and holds the byte, but its \<^verbatim>\<open>what()\<close> message is the empty string, not
  that byte.
\<close>

theorem what_of_zero_type_counterexample:
  "ReadRESP small_memory [NUL] = (Inl (ProtocolError (BadRedisType [NUL, NUL])), [])
   \<and> what (BadRedisType [NUL, NUL]) = []
   \<and> what (BadRedisType [NUL, NUL]) \<noteq> [NUL]"
  by (simp add: ReadRESP.simps(2) new_BadRedisType_def what_def c_str_def NUL_def)

subsection \<open>No stream\<close>

text \<open>
  Claim C9. When the stream pointer is null, \<open>ReadOne\<close> and \<open>WriteOne\<close> throw
  \<^verbatim>\<open>RedisDisconnected\<close> and leave the connection exactly as it was: no byte read or
  written, the flags, the queues and the count of spawned coroutines unchanged.
\<close>

theorem ReadOne_WriteOne_disconnected:
  assumes "m_Conn this = None"
  shows "ReadOne mem this = (Inl RedisDisconnected, this)
       \<and> WriteOne query this = (Inl RedisDisconnected, this)"
  using assms by (simp add: ReadOne_def WriteOne_def)

theorem ReadOne_WriteOne_disconnected_witness:
  "ReadOne small_memory \<lparr>m_Conn = None, m_Connecting = True, m_Connected = True,
            m_Queues = [''pending''], spawned_Connect = 0\<rparr>
     = (Inl RedisDisconnected,
        \<lparr>m_Conn = None, m_Connecting = True, m_Connected = True,
         m_Queues = [''pending''], spawned_Connect = 0\<rparr>)
   \<and> WriteOne [''PING'']
        \<lparr>m_Conn = None, m_Connecting = True, m_Connected = True,
         m_Queues = [''pending''], spawned_Connect = 0\<rparr>
     = (Inl RedisDisconnected,
        \<lparr>m_Conn = None, m_Connecting = True, m_Connected = True,
         m_Queues = [''pending''], spawned_Connect = 0\<rparr>)"
  using ReadOne_WriteOne_disconnected
    [where mem = small_memory and query = "[''PING'']"
       and this = "\<lparr>m_Conn = None, m_Connecting = True, m_Connected = True,
         m_Queues = [''pending''], spawned_Connect = 0\<rparr>"]
  by simp

subsection \<open>Bulk strings\<close>

lemma async_read_append:
  "length payload = n \<Longrightarrow> async_read n (payload @ rest) = (Inr payload, rest)"
  by (simp add: async_read_def)

lemma async_read_short:
  "length s < n \<Longrightarrow> async_read n s = (Inl system_error, [])"
  by (simp add: async_read_def)

lemma ReadRESP_header:
  assumes "lexical_cast buf = Some i"
  shows "ReadLine (buf @ CR # c # rest) = (Inr buf, rest)"
  using lexical_cast_no_CR [OF assms] by (rule ReadLine_line)

lemma ReadRESP_bulk_null:
  assumes "lexical_cast buf = Some i" "i < 0"
  shows "ReadRESP mem (CHR ''$'' # buf @ CR # c # rest) = (Inr ValueEmpty, rest)"
  using assms by (simp add: ReadRESP_dollar ReadRESP_header)

lemma ReadRESP_bulk_no_memory:
  assumes "lexical_cast buf = Some i" "0 \<le> i" "max_chars mem < nat i"
  shows "ReadRESP mem (CHR ''$'' # buf @ CR # c # rest) = (Inl bad_alloc, rest)"
  using assms by (simp add: ReadRESP_dollar ReadRESP_header)

lemma ReadRESP_bulk_payload:
  assumes "lexical_cast buf = Some i" "0 \<le> i" "nat i \<le> max_chars mem"
    and "length payload = nat i" "length trailer = 2"
  shows "ReadRESP mem (CHR ''$'' # buf @ CR # c # payload @ trailer @ rest)
           = (Inr (ValueString payload), rest)"
proof -
  have "async_read (nat i) (payload @ trailer @ rest) = (Inr payload, trailer @ rest)"
    using assms(4) by (rule async_read_append)
  moreover have "async_read 2 (trailer @ rest) = (Inr trailer, rest)"
    using assms(5) by (rule async_read_append)
  ultimately show ?thesis
    using assms(1,2,3) by (simp add: ReadRESP_dollar ReadRESP_header)
qed

lemma ReadRESP_bulk_short:
  assumes "lexical_cast buf = Some i" "0 \<le> i" "nat i \<le> max_chars mem"
    and "length rest < nat i + 2"
  shows "ReadRESP mem (CHR ''$'' # buf @ CR # c # rest) = (Inl system_error, [])"
proof (cases "length rest < nat i")
  case True
  then have "async_read (nat i) rest = (Inl system_error, [])" by (rule async_read_short)
  then show ?thesis using assms(1,2,3) by (simp add: ReadRESP_dollar ReadRESP_header)
next
  case False
  then have a: "async_read (nat i) rest = (Inr (take (nat i) rest), drop (nat i) rest)"
    by (simp add: async_read_def)
  have "length (drop (nat i) rest) < 2" using assms(4) False by simp
  then have "async_read 2 (drop (nat i) rest) = (Inl system_error, [])"
    by (rule async_read_short)
  then show ?thesis using a assms(1,2,3) by (simp add: ReadRESP_dollar ReadRESP_header)
qed

lemma lexical_cast_minus_one: "lexical_cast ''-1'' = Some (- 1)"
  by (simp add: lexical_cast_def lcast_ret_unsigned_def is_digit_def digit_value_def)

text \<open>
  Claim C4. A bulk string whose declared length is negative, \<open>$-1\<close> in particular,
  decodes to the null value, and nothing after the header is consumed. For a declared
  length \<open>i \<ge> 0\<close> whose buffer can be allocated, exactly \<open>i\<close> payload bytes and
  the two bytes after them are consumed and the payload is returned as a string,
  whatever bytes it holds; when fewer than \<open>i + 2\<close> bytes are left, the read throws
  at the end of the stream. When the buffer of \<open>i\<close> bytes cannot be allocated, the
  allocation throws and nothing after the header is consumed. The header's line is
  \<open>buf\<close>, ended by \<open>CR\<close> and one more byte \<open>c\<close>.
\<close>

theorem ReadRESP_bulk_string:
  "ReadRESP mem (''$-1'' @ CRLF @ rest) = (Inr ValueEmpty, rest)
   \<and> (lexical_cast buf = Some i \<longrightarrow>
        (i < 0 \<longrightarrow> ReadRESP mem (CHR ''$'' # buf @ CR # c # rest) = (Inr ValueEmpty, rest))
      \<and> (0 \<le> i \<longrightarrow> nat i \<le> max_chars mem \<longrightarrow> length payload = nat i \<longrightarrow>
           length trailer = 2 \<longrightarrow>
           ReadRESP mem (CHR ''$'' # buf @ CR # c # payload @ trailer @ rest)
             = (Inr (ValueString payload), rest))
      \<and> (0 \<le> i \<longrightarrow> nat i \<le> max_chars mem \<longrightarrow> length rest < nat i + 2 \<longrightarrow>
           ReadRESP mem (CHR ''$'' # buf @ CR # c # rest) = (Inl system_error, []))
      \<and> (0 \<le> i \<longrightarrow> max_chars mem < nat i \<longrightarrow>
           ReadRESP mem (CHR ''$'' # buf @ CR # c # rest) = (Inl bad_alloc, rest)))"
proof -
  have "ReadRESP mem (CHR ''$'' # ''-1'' @ CR # LF # rest) = (Inr ValueEmpty, rest)"
    using lexical_cast_minus_one by (rule ReadRESP_bulk_null) simp
  then have "ReadRESP mem (''$-1'' @ CRLF @ rest) = (Inr ValueEmpty, rest)"
    by (simp add: CRLF_def)
  then show ?thesis
    using ReadRESP_bulk_null [of buf i mem c rest]
      ReadRESP_bulk_payload [of buf i mem payload trailer c rest]
      ReadRESP_bulk_short [of buf i mem rest c]
      ReadRESP_bulk_no_memory [of buf i mem c rest]
    by blast
qed

theorem ReadRESP_bulk_string_witness:
  "ReadRESP small_memory (''$-1'' @ CRLF @ ''+OK'') = (Inr ValueEmpty, ''+OK'')
   \<and> ReadRESP small_memory (''$-7'' @ CRLF @ ''+OK'') = (Inr ValueEmpty, ''+OK'')
   \<and> ReadRESP small_memory (''$3'' @ CRLF @ [CR, LF, NUL] @ CRLF @ ''+OK'')
        = (Inr (ValueString [CR, LF, NUL]), ''+OK'')
   \<and> ReadRESP small_memory (''$3'' @ CRLF @ ''abc'' @ [CR]) = (Inl system_error, [])
   \<and> ReadRESP small_memory (''$17'' @ CRLF @ ''abc'') = (Inl bad_alloc, ''abc'')"
proof -
  have m7: "lexical_cast ''-7'' = Some (- 7)" and p3: "lexical_cast ''3'' = Some 3"
    and p17: "lexical_cast ''17'' = Some 17"
    by (simp_all add: lexical_cast_def lcast_ret_unsigned_def is_digit_def digit_value_def)
  show ?thesis
    using ReadRESP_bulk_string [of small_memory "''+OK''" "''-7''" "- 7" LF "[]" "[]"]
      ReadRESP_bulk_string [of small_memory "''+OK''" "''3''" 3 LF "[CR, LF, NUL]" CRLF]
      ReadRESP_bulk_string [of small_memory "''abc'' @ [CR]" "''3''" 3 LF "[]" "[]"]
      ReadRESP_bulk_string [of small_memory "''abc''" "''17''" 17 LF "[]" "[]"]
      m7 p3 p17
    by (simp add: CRLF_def small_memory_def)
qed

subsection \<open>Headers that are not integers\<close>

lemma ReadRESP_bad_header:
  assumes "type = CHR '':'' \<or> type = CHR ''$'' \<or> type = CHR ''*''"
    and "CR \<notin> set line" and "lexical_cast line = None"
  shows "ReadRESP mem (type # line @ CR # c # rest) = (Inl (ProtocolError (new_BadRedisInt line)), rest)"
  using assms by (auto simp: ReadRESP_colon ReadRESP_dollar ReadRESP_star ReadLine_line)

lemma c_str_append_NUL: "c_str (line @ [NUL]) = takeWhile (\<lambda>b. b \<noteq> NUL) line"
  by (induction line) (simp_all add: c_str_def)

text \<open>
  Claim C8, as amended. When the line after \<open>:\<close>, \<open>$\<close> or \<open>*\<close> is not a signed
  integer that \<open>lexical_cast\<close> accepts, \<open>ReadRESP\<close> throws \<^verbatim>\<open>BadRedisInt\<close> after
  the line and its terminator, and the exception's buffer holds exactly the raw bytes of
  the line and the terminating zero. Its \<^verbatim>\<open>what()\<close> message, a C string, is the
  line up to its first zero byte: the whole line when the line holds no zero byte.
\<close>

theorem ReadRESP_bad_int:
  assumes "type \<in> set '':$*''" and "CR \<notin> set line" and "lexical_cast line = None"
  shows "ReadRESP mem (type # line @ CR # c # rest)
           = (Inl (ProtocolError (new_BadRedisInt line)), rest)
       \<and> m_What (new_BadRedisInt line) = line @ [NUL]
       \<and> what (new_BadRedisInt line) = takeWhile (\<lambda>b. b \<noteq> NUL) line
       \<and> (NUL \<notin> set line \<longrightarrow> what (new_BadRedisInt line) = line)"
proof -
  have t: "type = CHR '':'' \<or> type = CHR ''$'' \<or> type = CHR ''*''"
    using assms(1) by auto
  have "ReadRESP mem (type # line @ CR # c # rest)
          = (Inl (ProtocolError (new_BadRedisInt line)), rest)"
    using t assms(2,3) by (rule ReadRESP_bad_header)
  moreover have "m_What (new_BadRedisInt line) = line @ [NUL]"
    by (simp add: new_BadRedisInt_def)
  moreover have w: "what (new_BadRedisInt line) = takeWhile (\<lambda>b. b \<noteq> NUL) line"
    by (simp add: what_def new_BadRedisInt_def c_str_append_NUL)
  moreover have "NUL \<notin> set line \<longrightarrow> what (new_BadRedisInt line) = line"
    unfolding w by (auto simp: takeWhile_eq_all_conv)
  ultimately show ?thesis by simp
qed

theorem ReadRESP_bad_int_witness:
  "ReadRESP small_memory (''$12a'' @ CRLF @ ''+OK'')
     = (Inl (ProtocolError (BadRedisInt (''12a'' @ [NUL]))), ''+OK'')
   \<and> what (BadRedisInt (''12a'' @ [NUL])) = ''12a''"
proof -
  have h: "CHR ''$'' \<in> set '':$*''" "CR \<notin> set ''12a''" "lexical_cast ''12a'' = None"
    "NUL \<notin> set ''12a''"
    by (simp_all add: CR_def NUL_def lexical_cast_def lcast_ret_unsigned_def is_digit_def)
  show ?thesis
    using h ReadRESP_bad_int [OF h(1,2,3), where mem = small_memory and c = LF and rest = "''+OK''"]
    by (simp add: CRLF_def new_BadRedisInt_def NUL_def)
qed

text \<open>
  The claim as stated fails on a line that holds a zero byte: the exception holds the
  whole line, but its \<^verbatim>\<open>what()\<close> message stops at the zero byte.
\<close>

theorem what_of_line_with_zero_counterexample:
  "ReadRESP small_memory ('':'' @ [CHR ''1'', NUL, CHR ''2''] @ CRLF)
     = (Inl (ProtocolError (BadRedisInt [CHR ''1'', NUL, CHR ''2'', NUL])), [])
   \<and> what (BadRedisInt [CHR ''1'', NUL, CHR ''2'', NUL]) = ''1''
   \<and> what (BadRedisInt [CHR ''1'', NUL, CHR ''2'', NUL]) \<noteq> [CHR ''1'', NUL, CHR ''2'']"
  by (simp add: ReadRESP_colon ReadLine_def CRLF_def CR_def LF_def NUL_def lexical_cast_def
      lcast_ret_unsigned_def is_digit_def new_BadRedisInt_def what_def c_str_def)

subsection \<open>Line terminators\<close>

text \<open>
  Claim C2. The claim, the spec and the comment above \<^verbatim>\<open>ReadLine\<close> ("Read from
  stream until \r\n", "Read data ex. \r\n") all say that a line ends with \<open>CR LF\<close>,
  and the bulk case names the two bytes it reads after the payload \<^verbatim>\<open>crlf\<close>. The
  code compares neither: a simple string ended by \<open>CR\<close> and the byte \<open>X\<close> is
  accepted, a bulk string followed by the bytes \<open>XY\<close> is accepted, and after a line
  ended by \<open>CR CR LF\<close> the decoder goes on in the middle of the terminator, at the
  \<open>LF\<close>.
\<close>

theorem ReadRESP_accepts_other_terminators:
  "ReadRESP small_memory (''+OK'' @ [CR, CHR ''X'']) = (Inr (ValueString ''OK''), [])
   \<and> ReadRESP small_memory (''$2'' @ CRLF @ ''ab'' @ ''XY'') = (Inr (ValueString ''ab''), [])
   \<and> ReadRESP small_memory (''+a'' @ [CR, CR, LF] @ '':1'' @ CRLF)
        = (Inr (ValueString ''a''), [LF] @ '':1'' @ CRLF)"
  by (simp add: ReadRESP_plus ReadRESP_dollar ReadLine_def async_read_def CRLF_def CR_def
      LF_def lexical_cast_def lcast_ret_unsigned_def is_digit_def digit_value_def
      small_memory_def)

subsection \<open>Termination\<close>

lemma ReadRESP_dom: "ReadRESP_ReadRESP_elems_dom x"
  using ReadRESP_total by blast

lemma ReadRESP_consumes:
  assumes "ReadRESP mem stream = (r, rest)"
  shows "length rest \<le> length stream - 1"
  using ReadRESP_partial_length(1) [OF ReadRESP_dom, of mem stream] assms by simp

lemma ReadRESP_Inr_consumes:
  assumes "ReadRESP mem stream = (Inr v, rest)"
  shows "length rest < length stream"
proof (cases stream)
  case Nil
  then show ?thesis using assms by simp
next
  case (Cons type s)
  then show ?thesis using ReadRESP_consumes [OF assms] by simp
qed

lemma ReadRESP_elems_consumes:
  "ReadRESP_elems mem n arr stream = (Inr arr', rest) \<Longrightarrow>
     length arr' = length arr + n \<and> length rest + n \<le> length stream"
proof (induction n arbitrary: arr stream)
  case 0
  then show ?case by simp
next
  case (Suc n)
  obtain r s1 where r: "ReadRESP mem stream = (r, s1)" by (cases "ReadRESP mem stream")
  show ?case
  proof (cases r)
    case (Inl e)
    then show ?thesis using Suc.prems r by simp
  next
    case (Inr v)
    then have "ReadRESP_elems mem n (arr @ [v]) s1 = (Inr arr', rest)"
      using Suc.prems r by simp
    then have "length arr' = length (arr @ [v]) + n \<and> length rest + n \<le> length s1"
      by (rule Suc.IH)
    moreover have "length s1 < length stream"
      using r Inr by (intro ReadRESP_Inr_consumes [of mem stream v s1]) simp
    ultimately show ?thesis by simp
  qed
qed

lemma ReadLine_consumes:
  assumes "ReadLine stream = (Inr line, rest)"
  shows "length rest + length line + 2 = length stream"
proof -
  obtain l c where "stream = l @ CR # c # rest" "line = [] @ l"
    using ReadLine_loop_Inr [of "[]" stream line rest] assms by (auto simp: ReadLine_def)
  then show ?thesis by simp
qed

text \<open>
  Claim C10. \<open>ReadRESP\<close> is total on every finite stream. The first two conjuncts
  say so of the recursion itself: every call of \<open>ReadRESP\<close> and of its loop
  \<open>ReadRESP_elems\<close> lies in the accessible part of the call relation, that is, every
  chain of recursive calls that starts from it is finite. The others give the reason:
  no call returns a longer stream than it was given, a \<open>ReadRESP\<close> that returns a
  value has consumed at least its type byte, \<open>ReadLine\<close> consumes the line and its
  two terminator bytes, and a loop that returns \<open>n\<close> more elements has consumed at
  least \<open>n\<close> bytes.
\<close>

theorem ReadRESP_terminates:
  "ReadRESP_ReadRESP_elems_dom (Inl (mem, stream))
   \<and> ReadRESP_ReadRESP_elems_dom (Inr (mem, n, arr, stream))
   \<and> length (snd (ReadRESP mem stream)) \<le> length stream
   \<and> (ReadRESP mem stream = (Inr v, rest) \<longrightarrow> length rest < length stream)
   \<and> (ReadLine stream = (Inr line, rest) \<longrightarrow> length rest + length line + 2 = length stream)
   \<and> (ReadRESP_elems mem n arr stream = (Inr arr', rest) \<longrightarrow>
        length arr' = length arr + n \<and> length rest + n \<le> length stream)"
proof -
  have "length (snd (ReadRESP mem stream)) \<le> length stream - 1"
    by (rule ReadRESP_consumes [of mem stream "fst (ReadRESP mem stream)"]) simp
  then have "length (snd (ReadRESP mem stream)) \<le> length stream"
    by simp
  then show ?thesis
    using ReadRESP_dom ReadRESP_Inr_consumes ReadLine_consumes ReadRESP_elems_consumes
    by blast
qed

lemma double_of_intmax_small: "\<bar>i\<bar> < 2 ^ 53 \<Longrightarrow> double_of_intmax i = i"
  unfolding double_of_intmax_def Let_def by (simp add: nat_less_iff)

lemma ReadRESP_integer:
  assumes "lexical_cast buf = Some i"
  shows "ReadRESP mem (CHR '':'' # buf @ CR # c # rest)
           = (Inr (ValueNumber (double_of_intmax i)), rest)"
  using assms by (simp add: ReadRESP_colon ReadRESP_header)

lemma ReadRESP_elems_eof: "0 < n \<Longrightarrow> ReadRESP_elems mem n arr [] = (Inl system_error, [])"
  by (cases n) simp_all

theorem ReadRESP_terminates_witness:
  "ReadRESP_ReadRESP_elems_dom (Inl (small_memory, ''*3'' @ CRLF @ '':1'' @ CRLF))
   \<and> ReadRESP small_memory ('':1'' @ CRLF @ ''+'') = (Inr (ValueNumber 1), ''+'')
   \<and> length ''+'' < length ('':1'' @ CRLF @ ''+'')
   \<and> ReadLine (''1'' @ CRLF @ ''+'') = (Inr ''1'', ''+'')
   \<and> length ''+'' + length ''1'' + 2 = length (''1'' @ CRLF @ ''+'')
   \<and> ReadRESP_elems small_memory 1 [] ('':1'' @ CRLF @ ''+'') = (Inr [ValueNumber 1], ''+'')
   \<and> length ''+'' + 1 \<le> length ('':1'' @ CRLF @ ''+'')"
proof -
  have l: "lexical_cast ''1'' = Some 1"
    by (simp add: lexical_cast_def lcast_ret_unsigned_def is_digit_def digit_value_def)
  have a: "ReadRESP small_memory ('':1'' @ CRLF @ ''+'') = (Inr (ValueNumber 1), ''+'')"
    using ReadRESP_integer [OF l, of small_memory LF "''+''"]
    by (simp add: CRLF_def double_of_intmax_small)
  have b: "ReadLine (''1'' @ CRLF @ ''+'') = (Inr ''1'', ''+'')"
    using ReadRESP_header [OF l, of LF "''+''"] by (simp add: CRLF_def)
  have c: "ReadRESP_elems small_memory 1 [] ('':1'' @ CRLF @ ''+'') = (Inr [ValueNumber 1], ''+'')"
    using a by simp
  show ?thesis
    using a b c
      ReadRESP_terminates [of small_memory "''*3'' @ CRLF @ '':1'' @ CRLF" 0 "[]"]
      ReadRESP_terminates [of small_memory "'':1'' @ CRLF @ ''+''" 1 "[]" "ValueNumber 1"
        "''+''" "''1''" "[ValueNumber 1]"]
      ReadRESP_terminates [of small_memory "''1'' @ CRLF @ ''+''" 0 "[]" "ValueEmpty"
        "''+''" "''1''" "[]"]
    by simp
qed

subsection \<open>Arrays\<close>

lemma ReadRESP_elems_decoded:
  "ReadRESP_elems mem n arr stream = (Inr arr', rest) \<Longrightarrow>
     \<exists>vs. arr' = arr @ vs \<and> length vs = n \<and> decoded_in_order mem stream vs rest"
proof (induction n arbitrary: arr stream)
  case 0
  then have "arr' = arr @ [] \<and> length ([] :: Value list) = 0 \<and> decoded_in_order mem stream [] rest"
    by simp
  then show ?case by blast
next
  case (Suc n)
  obtain r s1 where r: "ReadRESP mem stream = (r, s1)" by (cases "ReadRESP mem stream")
  show ?case
  proof (cases r)
    case (Inl e)
    then show ?thesis using Suc.prems r by simp
  next
    case (Inr v)
    then have "ReadRESP_elems mem n (arr @ [v]) s1 = (Inr arr', rest)"
      using Suc.prems r by simp
    from Suc.IH [OF this] obtain vs where
      vs: "arr' = (arr @ [v]) @ vs" "length vs = n" "decoded_in_order mem s1 vs rest"
      by blast
    have "arr' = arr @ (v # vs) \<and> length (v # vs) = Suc n
        \<and> decoded_in_order mem stream (v # vs) rest"
      using vs r Inr by simp
    then show ?thesis by blast
  qed
qed

lemma decoded_ReadRESP_elems:
  "decoded_in_order mem stream vs rest \<Longrightarrow>
     ReadRESP_elems mem (length vs) arr stream = (Inr (arr @ vs), rest)"
proof (induction vs arbitrary: arr stream)
  case Nil
  then show ?case by simp
next
  case (Cons v vs)
  obtain r s1 where r: "ReadRESP mem stream = (r, s1)" by (cases "ReadRESP mem stream")
  show ?case
  proof (cases r)
    case (Inl e)
    then show ?thesis using Cons.prems r by simp
  next
    case (Inr v')
    then have "v' = v" "decoded_in_order mem s1 vs rest"
      using Cons.prems r by simp_all
    then show ?thesis using Cons.IH [of s1 "arr @ [v]"] r Inr by simp
  qed
qed

lemma ReadRESP_elems_iff:
  "ReadRESP_elems mem n [] stream = (Inr vs, rest)
     \<longleftrightarrow> length vs = n \<and> decoded_in_order mem stream vs rest"
proof
  assume "ReadRESP_elems mem n [] stream = (Inr vs, rest)"
  from ReadRESP_elems_decoded [OF this] show "length vs = n \<and> decoded_in_order mem stream vs rest"
    by simp
next
  assume "length vs = n \<and> decoded_in_order mem stream vs rest"
  then show "ReadRESP_elems mem n [] stream = (Inr vs, rest)"
    using decoded_ReadRESP_elems [of mem stream vs rest "[]"] by auto
qed

lemma ReadRESP_array:
  assumes "lexical_cast buf = Some i"
  shows "ReadRESP mem (CHR ''*'' # buf @ CR # c # stream) =
     (if max_values mem < nat (if i < 0 then 0 else i) then (Inl bad_alloc, stream)
      else (case ReadRESP_elems mem (nat (if i < 0 then 0 else i)) [] stream of
              (Inl e, rest) \<Rightarrow> (Inl e, rest)
            | (Inr arr, rest) \<Rightarrow> (Inr (ValueArray arr), rest)))"
  using assms by (simp add: ReadRESP_star ReadRESP_header)

lemma ReadRESP_array_negative:
  assumes "lexical_cast buf = Some i" "i < 0"
  shows "ReadRESP mem (CHR ''*'' # buf @ CR # c # stream) = (Inr (ValueArray []), stream)"
  using assms by (simp add: ReadRESP_array)

lemma ReadRESP_array_no_memory:
  assumes "lexical_cast buf = Some i" "0 \<le> i" "max_values mem < nat i"
  shows "ReadRESP mem (CHR ''*'' # buf @ CR # c # stream) = (Inl bad_alloc, stream)"
  using assms by (simp add: ReadRESP_array)

lemma ReadRESP_array_iff:
  assumes "lexical_cast buf = Some i" "0 \<le> i" "nat i \<le> max_values mem"
  shows "ReadRESP mem (CHR ''*'' # buf @ CR # c # stream) = (Inr v, rest)
     \<longleftrightarrow> (\<exists>vs. v = ValueArray vs \<and> length vs = nat i \<and> decoded_in_order mem stream vs rest)"
proof -
  have rhs: "(\<exists>vs. v = ValueArray vs \<and> length vs = nat i \<and> decoded_in_order mem stream vs rest)
      \<longleftrightarrow> (\<exists>vs. v = ValueArray vs \<and> ReadRESP_elems mem (nat i) [] stream = (Inr vs, rest))"
    by (simp add: ReadRESP_elems_iff)
  obtain r s1 where e: "ReadRESP_elems mem (nat i) [] stream = (r, s1)"
    by (cases "ReadRESP_elems mem (nat i) [] stream")
  show ?thesis
  proof (cases r)
    case (Inl x)
    have "ReadRESP mem (CHR ''*'' # buf @ CR # c # stream) = (Inl x, s1)"
      using assms e Inl by (simp add: ReadRESP_array)
    then show ?thesis unfolding rhs e Inl by simp
  next
    case (Inr arr)
    have "ReadRESP mem (CHR ''*'' # buf @ CR # c # stream) = (Inr (ValueArray arr), s1)"
      using assms e Inr by (simp add: ReadRESP_array)
    then show ?thesis unfolding rhs e Inr by auto
  qed
qed

text \<open>
  Claim C5. An array whose declared count is negative, \<open>*-1\<close> in particular,
  decodes to the empty array, and nothing after the header is consumed. For a declared
  count \<open>i \<ge> 0\<close> whose storage can be reserved, \<open>ReadRESP\<close> returns a value \<open>v\<close>
  and leaves \<open>rest\<close> exactly when \<open>v\<close> is an array of \<open>i\<close> values that are
  decoded one after the other from the bytes after the header, in order, with \<open>rest\<close>
  left after the last. When the storage cannot be reserved, the reservation throws and
  nothing after the header is consumed. The header's line is \<open>buf\<close>, ended by
  \<open>CR\<close> and one more byte \<open>c\<close>.
\<close>

theorem ReadRESP_array_reply:
  "ReadRESP mem (''*-1'' @ CRLF @ stream) = (Inr (ValueArray []), stream)
   \<and> (lexical_cast buf = Some i \<longrightarrow>
        (i < 0 \<longrightarrow>
           ReadRESP mem (CHR ''*'' # buf @ CR # c # stream) = (Inr (ValueArray []), stream))
      \<and> (0 \<le> i \<longrightarrow> nat i \<le> max_values mem \<longrightarrow>
           (ReadRESP mem (CHR ''*'' # buf @ CR # c # stream) = (Inr v, rest)
              \<longleftrightarrow> (\<exists>vs. v = ValueArray vs \<and> length vs = nat i
                        \<and> decoded_in_order mem stream vs rest)))
      \<and> (0 \<le> i \<longrightarrow> max_values mem < nat i \<longrightarrow>
           ReadRESP mem (CHR ''*'' # buf @ CR # c # stream) = (Inl bad_alloc, stream)))"
proof -
  have "ReadRESP mem (CHR ''*'' # ''-1'' @ CR # LF # stream) = (Inr (ValueArray []), stream)"
    using lexical_cast_minus_one by (rule ReadRESP_array_negative) simp
  then have "ReadRESP mem (''*-1'' @ CRLF @ stream) = (Inr (ValueArray []), stream)"
    by (simp add: CRLF_def)
  then show ?thesis
    using ReadRESP_array_negative [of buf i mem c stream]
      ReadRESP_array_iff [of buf i mem c stream v rest]
      ReadRESP_array_no_memory [of buf i mem c stream]
    by blast
qed

lemma ReadRESP_simple_string:
  "CR \<notin> set line \<Longrightarrow>
     ReadRESP mem (CHR ''+'' # line @ CR # c # rest) = (Inr (ValueString line), rest)"
  by (simp add: ReadRESP_plus ReadLine_line)

theorem ReadRESP_array_reply_witness:
  "ReadRESP small_memory (''*-1'' @ CRLF @ ''+OK'') = (Inr (ValueArray []), ''+OK'')
   \<and> ReadRESP small_memory (''*-3'' @ CRLF @ ''+OK'') = (Inr (ValueArray []), ''+OK'')
   \<and> ReadRESP small_memory (''*2'' @ CRLF @ ''+a'' @ CRLF @ ''+b'' @ CRLF @ ''+c'')
        = (Inr (ValueArray [ValueString ''a'', ValueString ''b'']), ''+c'')
   \<and> ReadRESP small_memory (''*5'' @ CRLF @ ''+a'' @ CRLF) = (Inl bad_alloc, ''+a'' @ CRLF)"
proof -
  have m3: "lexical_cast ''-3'' = Some (- 3)" and p2: "lexical_cast ''2'' = Some 2"
    and p5: "lexical_cast ''5'' = Some 5"
    by (simp_all add: lexical_cast_def lcast_ret_unsigned_def is_digit_def digit_value_def)
  have a: "ReadRESP small_memory (''+a'' @ CRLF @ ''+b'' @ CRLF @ ''+c'')
      = (Inr (ValueString ''a''), ''+b'' @ CRLF @ ''+c'')"
    using ReadRESP_simple_string [of "''a''" small_memory LF "''+b'' @ CRLF @ ''+c''"]
    by (simp add: CRLF_def CR_def)
  have b: "ReadRESP small_memory (''+b'' @ CRLF @ ''+c'') = (Inr (ValueString ''b''), ''+c'')"
    using ReadRESP_simple_string [of "''b''" small_memory LF "''+c''"]
    by (simp add: CRLF_def CR_def)
  have d: "decoded_in_order small_memory (''+a'' @ CRLF @ ''+b'' @ CRLF @ ''+c'')
      [ValueString ''a'', ValueString ''b''] ''+c''"
    using a b by simp
  show ?thesis
    using m3 p2 p5 d
      ReadRESP_array_reply [of small_memory "''+OK''" "''-3''" "- 3" LF]
      ReadRESP_array_reply [of small_memory "''+a'' @ CRLF @ ''+b'' @ CRLF @ ''+c''" "''2''" 2 LF
        "ValueArray [ValueString ''a'', ValueString ''b'']" "''+c''"]
      ReadRESP_array_reply [of small_memory "''+a'' @ CRLF" "''5''" 5 LF]
    by (simp add: CRLF_def small_memory_def)
qed

subsection \<open>Requests\<close>

lemma digit_char_digit: "d < 10 \<Longrightarrow> is_digit (digit_char d)"
  by (simp add: is_digit_def digit_char_def)

lemma digit_char_value: "d < 10 \<Longrightarrow> digit_value (digit_char d) = d"
  by (simp add: digit_value_def digit_char_def)

lemma show_size_t_digits: "list_all is_digit (show_size_t n)"
proof (induction n rule: show_size_t.induct)
  case (1 n)
  show ?case
  proof (cases "n < 10")
    case True
    then show ?thesis by (subst show_size_t.simps) (simp add: digit_char_digit)
  next
    case False
    then show ?thesis using 1 by (subst show_size_t.simps) (simp add: digit_char_digit)
  qed
qed

lemma show_size_t_not_empty: "show_size_t n \<noteq> []"
  by (subst show_size_t.simps) simp

lemma show_size_t_value: "foldl (\<lambda>v c. 10 * v + digit_value c) 0 (show_size_t n) = n"
proof (induction n rule: show_size_t.induct)
  case (1 n)
  show ?case
  proof (cases "n < 10")
    case True
    then show ?thesis by (subst show_size_t.simps) (simp add: digit_char_value)
  next
    case False
    then show ?thesis using 1 by (subst show_size_t.simps) (simp add: digit_char_value)
  qed
qed

lemma lcast_ret_unsigned_show: "lcast_ret_unsigned (show_size_t n) = Some n"
  by (simp add: lcast_ret_unsigned_def show_size_t_digits show_size_t_not_empty
      show_size_t_value)

lemma digit_not_sign: "is_digit c \<Longrightarrow> c \<noteq> CHR ''-'' \<and> c \<noteq> CHR ''+''"
  by (auto simp: is_digit_def)

lemma lexical_cast_show:
  assumes "n < 2 ^ 63"
  shows "lexical_cast (show_size_t n) = Some (int n)"
proof (cases "show_size_t n")
  case Nil
  then show ?thesis using show_size_t_not_empty by simp
next
  case (Cons c rest)
  have "is_digit c" using show_size_t_digits [of n] Cons by simp
  then have c: "c \<noteq> CHR ''-''" "c \<noteq> CHR ''+''" using digit_not_sign by simp_all
  have u: "lcast_ret_unsigned (c # rest) = Some n"
    using lcast_ret_unsigned_show [of n] Cons by simp
  have "n \<le> 2 ^ 63 - 1" using assms by simp
  then show ?thesis unfolding Cons lexical_cast_def using c u by simp
qed

lemma foldl_append_concat:
  "foldl (\<lambda>msg arg. msg @ f arg) msg query = msg @ concat (map f query)"
  by (induction query arbitrary: msg) simp_all

lemma WriteRESP_msg_concat:
  "WriteRESP_msg query =
     ''*'' @ show_size_t (length query) @ CRLF
       @ concat (map (\<lambda>arg. ''$'' @ show_size_t (length arg) @ CRLF @ arg @ CRLF) query)"
  unfolding WriteRESP_msg_def by (subst foldl_append_concat) simp

text \<open>
  Claim C3. For a query of \<open>N\<close> arguments \<open>WriteRESP\<close> puts into its buffer, and
  on a stream that takes the write appends to the bytes written, exactly
  \<open>*N CR LF\<close> and then, for each argument in order, \<open>$L CR LF\<close>, the \<open>L\<close> bytes
  of the argument and \<open>CR LF\<close>, and no other byte; on a stream that fails the write
  nothing is written. \<open>N\<close> and \<open>L\<close> are written by \<open>show_size_t\<close>, whose
  output is never empty, consists of decimal digits and has the number as its decimal
  value.
\<close>

theorem WriteRESP_bytes:
  "WriteRESP_msg query =
     ''*'' @ show_size_t (length query) @ CRLF
       @ concat (map (\<lambda>arg. ''$'' @ show_size_t (length arg) @ CRLF @ arg @ CRLF) query)
   \<and> WriteRESP query stream =
       (if write_fails stream then (Inl system_error, stream)
        else (Inr (), stream\<lparr>outgoing := outgoing stream @ WriteRESP_msg query\<rparr>))
   \<and> show_size_t n \<noteq> []
   \<and> list_all is_digit (show_size_t n)
   \<and> foldl (\<lambda>v c. 10 * v + digit_value c) 0 (show_size_t n) = n"
proof -
  have "WriteRESP query stream =
       (if write_fails stream then (Inl system_error, stream)
        else (Inr (), stream\<lparr>outgoing := outgoing stream @ WriteRESP_msg query\<rparr>))"
    by (simp add: WriteRESP_def async_write_def)
  then show ?thesis
    using WriteRESP_msg_concat [of query] show_size_t_not_empty [of n]
      show_size_t_digits [of n] show_size_t_value [of n]
    by simp
qed

theorem WriteRESP_bytes_witness:
  "WriteRESP [''GET'', ''k'']
      \<lparr>incoming = [], outgoing = ''ab'', write_fails = False\<rparr>
     = (Inr (), \<lparr>incoming = [],
          outgoing = ''ab'' @ ''*2'' @ CRLF @ ''$3'' @ CRLF @ ''GET'' @ CRLF
            @ ''$1'' @ CRLF @ ''k'' @ CRLF,
          write_fails = False\<rparr>)
   \<and> show_size_t 120 = ''120''"
proof -
  have d: "show_size_t (Suc 0) = ''1''" "show_size_t (Suc (Suc 0)) = ''2''"
    "show_size_t (Suc (Suc (Suc 0))) = ''3''" "show_size_t 120 = ''120''"
    by (simp_all add: show_size_t.simps digit_char_def char_of_def bit_Suc_0_iff)
  show ?thesis
    using WriteRESP_bytes [of "[''GET'', ''k'']"
        "\<lparr>incoming = [], outgoing = ''ab'', write_fails = False\<rparr>" 120] d
    by simp
qed

subsection \<open>Round trip\<close>

lemma ReadRESP_encoded_arg:
  assumes "length arg < 2 ^ 63" "length arg \<le> max_chars mem"
  shows "ReadRESP mem ((''$'' @ show_size_t (length arg) @ CRLF @ arg @ CRLF) @ rest)
           = (Inr (ValueString arg), rest)"
proof -
  have "lexical_cast (show_size_t (length arg)) = Some (int (length arg))"
    using assms(1) by (rule lexical_cast_show)
  then have "ReadRESP mem (CHR ''$'' # show_size_t (length arg) @ CR # LF # arg @ CRLF @ rest)
      = (Inr (ValueString arg), rest)"
    using assms(2)
      ReadRESP_bulk_payload [of "show_size_t (length arg)" "int (length arg)" mem arg CRLF LF rest]
    by (simp add: CRLF_def)
  then show ?thesis by (simp add: CRLF_def)
qed

lemma ReadRESP_elems_encoded:
  assumes "\<forall>arg \<in> set query. length arg < 2 ^ 63 \<and> length arg \<le> max_chars mem"
  shows "ReadRESP_elems mem (length query) arr
           (concat (map (\<lambda>arg. ''$'' @ show_size_t (length arg) @ CRLF @ arg @ CRLF) query) @ rest)
         = (Inr (arr @ map ValueString query), rest)"
  using assms
proof (induction query arbitrary: arr)
  case Nil
  then show ?case by simp
next
  case (Cons arg query)
  have "ReadRESP mem ((''$'' @ show_size_t (length arg) @ CRLF @ arg @ CRLF)
      @ concat (map (\<lambda>arg. ''$'' @ show_size_t (length arg) @ CRLF @ arg @ CRLF) query) @ rest)
    = (Inr (ValueString arg),
       concat (map (\<lambda>arg. ''$'' @ show_size_t (length arg) @ CRLF @ arg @ CRLF) query) @ rest)"
    using Cons.prems by (intro ReadRESP_encoded_arg) simp_all
  moreover have "ReadRESP_elems mem (length query) (arr @ [ValueString arg])
      (concat (map (\<lambda>arg. ''$'' @ show_size_t (length arg) @ CRLF @ arg @ CRLF) query) @ rest)
    = (Inr ((arr @ [ValueString arg]) @ map ValueString query), rest)"
    using Cons.prems by (intro Cons.IH) simp
  ultimately show ?case by simp
qed

text \<open>
  Claim C1. Whatever bytes the arguments of a query hold, the bytes that \<open>WriteRESP\<close>
  writes for it decode, with \<open>ReadRESP\<close>, to the array of the same byte strings in
  the same order, and the decoder stops exactly at the end of those bytes (what follows
  them, \<open>rest\<close>, is left). The first two hypotheses hold of every \<^verbatim>\<open>Query\<close> the
  program can hold: the sizes of a \<^verbatim>\<open>std::vector\<close> and of a \<^verbatim>\<open>String\<close> are
  below \<open>2 ^ 63\<close>, which is also what the decoder's \<^verbatim>\<open>intmax_t\<close> can take. The
  next two say that the decoder can allocate what the encoder held: the array of
  \<open>length query\<close> values and a buffer for each argument.
\<close>

theorem WriteRESP_ReadRESP_roundtrip:
  assumes "length query < 2 ^ 63" and "\<forall>arg \<in> set query. length arg < 2 ^ 63"
    and "length query \<le> max_values mem" and "\<forall>arg \<in> set query. length arg \<le> max_chars mem"
    and "WriteRESP query stream = (Inr (), stream')"
  shows "outgoing stream' = outgoing stream @ WriteRESP_msg query
       \<and> ReadRESP mem (WriteRESP_msg query @ rest)
           = (Inr (ValueArray (map ValueString query)), rest)"
proof -
  have w: "outgoing stream' = outgoing stream @ WriteRESP_msg query"
    using assms(5) by (auto simp: WriteRESP_def async_write_def split: if_splits)
  let ?args = "concat (map (\<lambda>arg. ''$'' @ show_size_t (length arg) @ CRLF @ arg @ CRLF) query)"
  have l: "lexical_cast (show_size_t (length query)) = Some (int (length query))"
    using assms(1) by (rule lexical_cast_show)
  have e: "ReadRESP_elems mem (length query) [] (?args @ rest)
      = (Inr ([] @ map ValueString query), rest)"
    using assms(2,4) by (intro ReadRESP_elems_encoded) simp
  have "ReadRESP mem (CHR ''*'' # show_size_t (length query) @ CR # LF # ?args @ rest)
      = (Inr (ValueArray (map ValueString query)), rest)"
    using assms(3) e by (simp add: ReadRESP_array [OF l])
  then have "ReadRESP mem (WriteRESP_msg query @ rest)
      = (Inr (ValueArray (map ValueString query)), rest)"
    by (simp add: WriteRESP_msg_concat CRLF_def)
  then show ?thesis using w by simp
qed

theorem WriteRESP_ReadRESP_roundtrip_witness:
  "WriteRESP [''SET'', [NUL, CR, LF]] \<lparr>incoming = [], outgoing = [], write_fails = False\<rparr>
     = (Inr (), \<lparr>incoming = [],
          outgoing = ''*2'' @ CRLF @ ''$3'' @ CRLF @ ''SET'' @ CRLF
            @ ''$3'' @ CRLF @ [NUL, CR, LF] @ CRLF,
          write_fails = False\<rparr>)
   \<and> ReadRESP small_memory
        (''*2'' @ CRLF @ ''$3'' @ CRLF @ ''SET'' @ CRLF @ ''$3'' @ CRLF @ [NUL, CR, LF] @ CRLF
           @ ''+OK'')
     = (Inr (ValueArray [ValueString ''SET'', ValueString [NUL, CR, LF]]), ''+OK'')"
proof -
  have d: "show_size_t (Suc (Suc 0)) = ''2''" "show_size_t (Suc (Suc (Suc 0))) = ''3''"
    by (simp_all add: show_size_t.simps digit_char_def char_of_def bit_Suc_0_iff)
  have m: "WriteRESP_msg [''SET'', [NUL, CR, LF]]
      = ''*2'' @ CRLF @ ''$3'' @ CRLF @ ''SET'' @ CRLF @ ''$3'' @ CRLF @ [NUL, CR, LF] @ CRLF"
    by (simp add: WriteRESP_msg_def d)
  have h: "length [''SET'', [NUL, CR, LF]] < (2 :: nat) ^ 63"
    "\<forall>arg \<in> set [''SET'', [NUL, CR, LF]]. length arg < (2 :: nat) ^ 63"
    "length [''SET'', [NUL, CR, LF]] \<le> max_values small_memory"
    "\<forall>arg \<in> set [''SET'', [NUL, CR, LF]]. length arg \<le> max_chars small_memory"
    "WriteRESP [''SET'', [NUL, CR, LF]] \<lparr>incoming = [], outgoing = [], write_fails = False\<rparr>
       = (Inr (), \<lparr>incoming = [], outgoing = WriteRESP_msg [''SET'', [NUL, CR, LF]],
            write_fails = False\<rparr>)"
    by (simp_all add: small_memory_def WriteRESP_def async_write_def)
  show ?thesis
    using h(5) WriteRESP_ReadRESP_roundtrip [OF h, of "''+OK''"]
    by (simp add: m)
qed

end
